theory Spec2Isabelle
  imports
    Main
    "HOL-Library.Char_ord"
    "HOL-Library.List_Lexorder"
    "HOL-Library.Multiset"
    "HOL-Library.AList"
begin

section \<open>The issue report generator: generate\_issues\_report.py\<close>

text \<open>
  A shallow embedding of \<^verbatim>\<open>.agents/skills/issue-resolve/scripts/generate_issues_report.py\<close>.

  Python's \<^verbatim>\<open>str\<close> is modelled by \<^typ>\<open>string\<close>, one \<^typ>\<open>char\<close> per code point, so the
  texts of the model are the texts over the code points 0 to 255. On that range the
  character classes of Python are the finite tables below: \<^verbatim>\<open>\d\<close> is the ten ASCII digits,
  and case-insensitive matching of the letters that occur in the four patterns only
  identifies an ASCII letter with its other case. File contents are what
  \<^verbatim>\<open>read_text(encoding="utf-8")\<close> returns, or the \<^verbatim>\<open>OSError\<close> it raises; the input format
  of the tool is UTF-8 text, so a decoding failure is not part of the model.
\<close>

subsection \<open>Characters and the string methods the script calls\<close>

definition NL :: char where
  "NL = CHR 0x0A"

definition isspace :: "char \<Rightarrow> bool" where
  \<comment> \<open>\<^verbatim>\<open>str.isspace\<close>, which is also the class \<^verbatim>\<open>\s\<close> and what \<^verbatim>\<open>str.strip()\<close> removes\<close>
  "isspace c \<longleftrightarrow> c \<in> set [CHR 0x09, CHR 0x0A, CHR 0x0B, CHR 0x0C, CHR 0x0D,
                          CHR 0x1C, CHR 0x1D, CHR 0x1E, CHR 0x1F, CHR 0x20, CHR 0x85, CHR 0xA0]"

definition is_linebreak :: "char \<Rightarrow> bool" where
  \<comment> \<open>the line boundaries of \<^verbatim>\<open>str.splitlines()\<close>; CR LF counts as one\<close>
  "is_linebreak c \<longleftrightarrow> c \<in> set [CHR 0x0A, CHR 0x0B, CHR 0x0C, CHR 0x0D,
                               CHR 0x1C, CHR 0x1D, CHR 0x1E, CHR 0x85]"

definition isdigit :: "char \<Rightarrow> bool" where
  \<comment> \<open>the class \<^verbatim>\<open>\d\<close>\<close>
  "isdigit c \<longleftrightarrow> c \<in> set ''0123456789''"

definition digit_value :: "char \<Rightarrow> int" where
  "digit_value c = int (of_char c) - 48"

definition lower :: "char \<Rightarrow> char" where
  \<comment> \<open>case folding as \<^verbatim>\<open>re.IGNORECASE\<close> applies it to ASCII letters\<close>
  "lower c = (case map_of (zip ''ABCDEFGHIJKLMNOPQRSTUVWXYZ'' ''abcdefghijklmnopqrstuvwxyz'') c of
                Some l \<Rightarrow> l
              | None \<Rightarrow> c)"

definition strip :: "string \<Rightarrow> string" where
  \<comment> \<open>\<^verbatim>\<open>str.strip()\<close>\<close>
  "strip s = rev (dropWhile isspace (rev (dropWhile isspace s)))"

fun splitlines_from :: "string \<Rightarrow> string \<Rightarrow> string list" where
  \<comment> \<open>the first argument is the current line so far, reversed\<close>
  "splitlines_from cur [] = (if cur = [] then [] else [rev cur])"
| "splitlines_from cur (c # cs) =
     (if c = CHR 0x0D then
        (case cs of
           [] \<Rightarrow> [rev cur]
         | d # ds \<Rightarrow> if d = CHR 0x0A then rev cur # splitlines_from [] ds
                    else rev cur # splitlines_from [] (d # ds))
      else if is_linebreak c then rev cur # splitlines_from [] cs
      else splitlines_from (c # cur) cs)"

definition splitlines :: "string \<Rightarrow> string list" where
  \<comment> \<open>\<^verbatim>\<open>str.splitlines()\<close>: no empty last line after a final line boundary\<close>
  "splitlines s = splitlines_from [] s"

definition py_int :: "string \<Rightarrow> int" where
  \<comment> \<open>\<^verbatim>\<open>int(s)\<close> on a non-empty string of digits. CPython refuses digit strings beyond
      a length of thousands; a file name is shorter, so that branch is not modelled.\<close>
  "py_int ds = foldl (\<lambda>a c. 10 * a + digit_value c) 0 ds"

fun str_nat :: "nat \<Rightarrow> string" where
  "str_nat n =
     (if n < 10 then [''0123456789'' ! n]
      else str_nat (n div 10) @ [''0123456789'' ! (n mod 10)])"

declare str_nat.simps [simp del]

definition str_int :: "int \<Rightarrow> string" where
  \<comment> \<open>how an f-string formats an \<^verbatim>\<open>int\<close>\<close>
  "str_int i = (if i < 0 then CHR ''-'' # str_nat (nat (- i)) else str_nat (nat i))"

fun join :: "string \<Rightarrow> string list \<Rightarrow> string" where
  \<comment> \<open>\<^verbatim>\<open>sep.join(xs)\<close>\<close>
  "join sep [] = []"
| "join sep [x] = x"
| "join sep (x # y # ys) = x @ sep @ join sep (y # ys)"

subsection \<open>Data model\<close>

record Issue =
  filename :: string
  bug_number :: int
  title :: string
  status :: string
  tags :: string

subsection \<open>Parsing helpers: the four compiled patterns\<close>

text \<open>
  Each pattern is a fixed regular expression, so its matcher is written out. Where
  the backtracking matcher of \<^verbatim>\<open>re\<close> has a choice, the comment says why the equation takes
  the match it would return.
\<close>

definition BUG_NUMBER_RE_match :: "string \<Rightarrow> string option" where
  \<comment> \<open>\<^verbatim>\<open>_bug(\d+)_\<close>, ignoring case, at the start of the argument; the result is group 1.
      The digits must be followed by an underscore, which is no digit, so only the longest
      run of digits can match.\<close>
  "BUG_NUMBER_RE_match s =
     (if map lower (take 4 s) = ''_bug'' then
        (let ds = takeWhile isdigit (drop 4 s);
             rest = dropWhile isdigit (drop 4 s)
         in if ds \<noteq> [] \<and> take 1 rest = ''_'' then Some ds else None)
      else None)"

fun BUG_NUMBER_RE_search :: "string \<Rightarrow> string option" where
  \<comment> \<open>\<^verbatim>\<open>_BUG_NUMBER_RE.search(filename)\<close>: the match at the leftmost position that has one\<close>
  "BUG_NUMBER_RE_search [] = None"
| "BUG_NUMBER_RE_search (c # cs) =
     (case BUG_NUMBER_RE_match (c # cs) of
        Some g \<Rightarrow> Some g
      | None \<Rightarrow> BUG_NUMBER_RE_search cs)"

definition remainder_group :: "string \<Rightarrow> string option" where
  \<comment> \<open>the common tail \<^verbatim>\<open>\s*(.+)\<close> of the three header patterns; the result is group 1.
      \<^verbatim>\<open>\s*\<close> takes all leading whitespace and \<^verbatim>\<open>.+\<close> the rest up to a newline. When nothing
      but whitespace is left, \<^verbatim>\<open>\s*\<close> gives characters back until \<^verbatim>\<open>.+\<close> finds one that is
      not a newline: the last such character, alone.\<close>
  "remainder_group s =
     (let r = dropWhile isspace s in
      if r \<noteq> [] then Some (takeWhile (\<lambda>c. c \<noteq> NL) r)
      else (case filter (\<lambda>c. c \<noteq> NL) s of
              [] \<Rightarrow> None
            | x # xs \<Rightarrow> Some [last (x # xs)]))"

definition TITLE_RE_match :: "string \<Rightarrow> string option" where
  \<comment> \<open>\<^verbatim>\<open>^#\s*\[Bug\]:\s*(.+)\<close>, ignoring case\<close>
  "TITLE_RE_match s =
     (case s of
        [] \<Rightarrow> None
      | c # r \<Rightarrow>
          if c = CHR ''#'' then
            (let r1 = dropWhile isspace r in
             if map lower (take 6 r1) = ''[bug]:'' then remainder_group (drop 6 r1) else None)
          else None)"

definition STATUS_RE_match :: "string \<Rightarrow> string option" where
  \<comment> \<open>\<^verbatim>\<open>^\*\*Status:\*\*\s*(.+)\<close>, ignoring case\<close>
  "STATUS_RE_match s =
     (if map lower (take 11 s) = ''**status:**'' then remainder_group (drop 11 s) else None)"

definition TAGS_RE_match :: "string \<Rightarrow> string option" where
  \<comment> \<open>\<^verbatim>\<open>^\*\*Tags:\*\*\s*(.+)\<close>, ignoring case\<close>
  "TAGS_RE_match s =
     (if map lower (take 9 s) = ''**tags:**'' then remainder_group (drop 9 s) else None)"

subsection \<open>parse\_issue\<close>

definition NO_TITLE :: string where
  "NO_TITLE = ''<no title>''"

definition UNKNOWN :: string where
  "UNKNOWN = ''Unknown''"

type_synonym fields = "string \<times> string \<times> string"

datatype loop_ctl = Continue fields | Break fields

definition loop_body :: "string \<Rightarrow> fields \<Rightarrow> loop_ctl" where
  \<comment> \<open>one iteration of the \<^verbatim>\<open>for line in text.splitlines()\<close> loop on the variables
      \<^verbatim>\<open>(title, status, tags)\<close>\<close>
  "loop_body raw st =
     (case st of (ttl, sts, tgs) \<Rightarrow>
        (let line = strip raw in
         case (if ttl = NO_TITLE then TITLE_RE_match line else None) of
           Some g \<Rightarrow> Continue (strip g, sts, tgs)
         | None \<Rightarrow>
            (case (if sts = UNKNOWN then STATUS_RE_match line else None) of
               Some g \<Rightarrow> Continue (ttl, strip g, tgs)
             | None \<Rightarrow>
                (case (if tgs = UNKNOWN then TAGS_RE_match line else None) of
                   Some g \<Rightarrow> Continue (ttl, sts, strip g)
                 | None \<Rightarrow>
                     if ttl \<noteq> NO_TITLE \<and> sts \<noteq> UNKNOWN \<and> tgs \<noteq> UNKNOWN
                     then Break (ttl, sts, tgs)
                     else Continue (ttl, sts, tgs)))))"

fun scan_lines :: "string list \<Rightarrow> fields \<Rightarrow> fields" where
  "scan_lines [] st = st"
| "scan_lines (raw # ls) st =
     (case loop_body raw st of
        Continue st' \<Rightarrow> scan_lines ls st'
      | Break st' \<Rightarrow> st')"

definition extract_fields :: "string \<Rightarrow> fields" where
  "extract_fields text = scan_lines (splitlines text) (NO_TITLE, UNKNOWN, UNKNOWN)"

datatype read_result = Text string | OSError string

record Path =
  name :: string
  path_str :: string
  read_text :: read_result

text \<open>
  A \<^typ>\<open>Path\<close> carries what the script asks of a \<^verbatim>\<open>pathlib.Path\<close>: its final component
  \<^verbatim>\<open>path.name\<close>, its rendering \<^verbatim>\<open>str(path)\<close>, and what \<^verbatim>\<open>path.read_text\<close> yields on the
  file system of the run. \<^verbatim>\<open>parse_issue\<close> returns its value together with the lines it
  prints to \<^verbatim>\<open>sys.stderr\<close>.
\<close>

definition read_warning :: "string \<Rightarrow> string \<Rightarrow> string" where
  "read_warning p exc = ''[WARN] Cannot read '' @ p @ '': '' @ exc"

definition parse_issue :: "Path \<Rightarrow> Issue option \<times> string list" where
  "parse_issue path =
     (case BUG_NUMBER_RE_search (name path) of
        None \<Rightarrow> (None, [])
      | Some g \<Rightarrow>
          (case read_text path of
             OSError exc \<Rightarrow> (None, [read_warning (path_str path) exc])
           | Text text \<Rightarrow>
               (case extract_fields text of (ttl, sts, tgs) \<Rightarrow>
                  (Some \<lparr>filename = name path, bug_number = py_int g,
                         title = ttl, status = sts, tags = tgs\<rparr>, []))))"

subsection \<open>generate\_report\<close>

text \<open>
  A Python \<^verbatim>\<open>dict\<close> keeps its keys in insertion order; it is an association list with
  distinct keys, \<^const>\<open>map_of\<close> reads it and \<^const>\<open>AList.update\<close> writes it: an existing
  key keeps its place, a new key goes to the end.
\<close>

type_synonym counts = "(string \<times> int) list"

definition dict_get :: "counts \<Rightarrow> string \<Rightarrow> int \<Rightarrow> int" where
  \<comment> \<open>\<^verbatim>\<open>counts.get(key, default)\<close>\<close>
  "dict_get d k dflt = (case map_of d k of Some v \<Rightarrow> v | None \<Rightarrow> dflt)"

fun count_loop :: "Issue list \<Rightarrow> counts \<times> counts \<Rightarrow> counts \<times> counts" where
  \<comment> \<open>the loop that fills \<^verbatim>\<open>status_counts\<close> and \<^verbatim>\<open>tags_counts\<close>\<close>
  "count_loop [] acc = acc"
| "count_loop (issue # issues) (status_counts, tags_counts) =
     count_loop issues
       (AList.update (status issue) (dict_get status_counts (status issue) 0 + 1) status_counts,
        AList.update (tags issue) (dict_get tags_counts (tags issue) 0 + 1) tags_counts)"

definition status_counts :: "Issue list \<Rightarrow> counts" where
  "status_counts issues = fst (count_loop issues ([], []))"

definition tags_counts :: "Issue list \<Rightarrow> counts" where
  "tags_counts issues = snd (count_loop issues ([], []))"

definition STATUS_ORDER :: "string list" where
  "STATUS_ORDER = [''Fixed'', ''Open'', ''Invalid'']"

definition TAGS_ORDER :: "string list" where
  "TAGS_ORDER = [''Verified'', ''Not Verified'', ''Not Reproduced'']"

definition stat_line :: "string \<Rightarrow> int \<Rightarrow> string" where
  "stat_line key n = ''- **'' @ key @ ''**: '' @ str_int n"

definition stat_lines :: "counts \<Rightarrow> string list \<Rightarrow> string list" where
  \<comment> \<open>\<^verbatim>\<open>_stat_lines\<close>. In the second loop the key comes from \<^verbatim>\<open>counts\<close> itself, so
      \<^verbatim>\<open>counts[key]\<close> cannot raise there.\<close>
  "stat_lines cnts order =
     concat (map (\<lambda>key. case map_of cnts key of
                           Some n \<Rightarrow> [stat_line key n]
                         | None \<Rightarrow> []) order)
     @ concat (map (\<lambda>key. if key \<notin> set order
                           then (case map_of cnts key of
                                   Some n \<Rightarrow> [stat_line key n]
                                 | None \<Rightarrow> [])
                           else []) (sort (map fst cnts)))"

definition stat_status :: "Issue list \<Rightarrow> string" where
  "stat_status issues = join [NL] (stat_lines (status_counts issues) STATUS_ORDER)"

definition stat_tags :: "Issue list \<Rightarrow> string" where
  "stat_tags issues = join [NL] (stat_lines (tags_counts issues) TAGS_ORDER)"

definition table_row :: "Issue \<Rightarrow> string" where
  "table_row issue =
     ''| '' @ (''['' @ filename issue @ ''](./'' @ filename issue @ '')'')
       @ '' | '' @ title issue @ '' | '' @ status issue @ '' | '' @ tags issue @ '' |''"

definition rows :: "Issue list \<Rightarrow> string list" where
  \<comment> \<open>\<^verbatim>\<open>sorted(issues, key=...)\<close> is a stable sort, as \<^const>\<open>sort_key\<close> is\<close>
  "rows issues = map table_row (sort_key bug_number issues)"

definition table_body :: "Issue list \<Rightarrow> string" where
  "table_body issues = join [NL] (rows issues)"

definition generate_report :: "Issue list \<Rightarrow> string" where
  "generate_report issues =
     ''# Bug Issues Report'' @ [NL] @ [NL]
     @ ''## Statistics'' @ [NL] @ [NL]
     @ ''### By Status'' @ [NL]
     @ stat_status issues @ [NL] @ [NL]
     @ ''### By Tags'' @ [NL]
     @ stat_tags issues @ [NL] @ [NL]
     @ ''## All Issues'' @ [NL] @ [NL]
     @ ''| Issue | Title | Status | Tags |'' @ [NL]
     @ ''|---|---|---|---|'' @ [NL]
     @ table_body issues @ [NL]"

subsection \<open>main: collecting the corpus\<close>

text \<open>
  The argument of \<^verbatim>\<open>scan\<close> is the listing of the issues directory.
  \<^verbatim>\<open>issues_dir.glob("*.md")\<close> keeps the entries whose name ends in \<^verbatim>\<open>.md\<close>, and
  \<^verbatim>\<open>sorted\<close> orders the paths of one directory by their names. The result is the list
  \<^verbatim>\<open>issues\<close> and the lines printed to \<^verbatim>\<open>sys.stderr\<close>.
\<close>

definition glob_md :: "Path list \<Rightarrow> Path list" where
  "glob_md listing =
     filter (\<lambda>p. 3 \<le> length (name p) \<and> drop (length (name p) - 3) (name p) = ''.md'') listing"

fun collect :: "Path list \<Rightarrow> Issue list \<times> string list \<Rightarrow> Issue list \<times> string list" where
  "collect [] acc = acc"
| "collect (path # paths) (issues, err) =
     (if name path = ''ISSUES_REPORT.md'' then collect paths (issues, err)
      else (case parse_issue path of
              (Some issue, printed) \<Rightarrow> collect paths (issues @ [issue], err @ printed)
            | (None, printed) \<Rightarrow> collect paths (issues, err @ printed)))"

definition scan :: "Path list \<Rightarrow> Issue list \<times> string list" where
  "scan listing = collect (sort_key name (glob_md listing)) ([], [])"

definition corpus :: "Path list \<Rightarrow> Issue list" where
  "corpus listing = fst (scan listing)"

definition main_report :: "Path list \<Rightarrow> string \<times> string list" where
  \<comment> \<open>the report and everything printed to \<^verbatim>\<open>sys.stderr\<close>\<close>
  "main_report listing =
     (case scan listing of (issues, err) \<Rightarrow>
        (generate_report issues,
         err @ (if issues = [] then [''[WARN] No issue files found.''] else [])))"

text \<open>
  What one path of the loop adds to \<^verbatim>\<open>issues\<close> and to \<^verbatim>\<open>sys.stderr\<close>.
\<close>

definition issues_of :: "Path \<Rightarrow> Issue list" where
  "issues_of path =
     (if name path = ''ISSUES_REPORT.md'' then []
      else (case fst (parse_issue path) of Some issue \<Rightarrow> [issue] | None \<Rightarrow> []))"

definition printed_by :: "Path \<Rightarrow> string list" where
  "printed_by path = (if name path = ''ISSUES_REPORT.md'' then [] else snd (parse_issue path))"

section \<open>Notions of the specification\<close>

subsection \<open>File names\<close>

definition bug_segment_at :: "string \<Rightarrow> nat \<Rightarrow> nat \<Rightarrow> bool" where
  \<comment> \<open>at position \<open>i\<close> the name reads \<^verbatim>\<open>_bug\<close> in any case, then \<open>n\<close> digits, at least one,
      then an underscore\<close>
  "bug_segment_at s i n \<longleftrightarrow>
     map lower (take 4 (drop i s)) = ''_bug'' \<and> 0 < n \<and> i + 4 + n < length s
     \<and> list_all isdigit (take n (drop (i + 4) s)) \<and> s ! (i + 4 + n) = CHR ''_''"

definition contains_bug_pattern :: "string \<Rightarrow> bool" where
  "contains_bug_pattern s \<longleftrightarrow>
     list_ex (\<lambda>i. list_ex (\<lambda>n. bug_segment_at s i n) [0..<length s]) [0..<length s]"

definition first_bug_segment :: "string \<Rightarrow> nat \<Rightarrow> nat \<Rightarrow> bool" where
  \<comment> \<open>the segment at \<open>i\<close> is the first one of the name\<close>
  "first_bug_segment s i n \<longleftrightarrow>
     bug_segment_at s i n
     \<and> list_all (\<lambda>j. list_all (\<lambda>m. \<not> bug_segment_at s j m) [0..<length s]) [0..<i]"

definition decimal_value :: "string \<Rightarrow> int" where
  \<comment> \<open>the number a string of digits denotes, digit by position\<close>
  "decimal_value ds =
     sum_list (map (\<lambda>k. digit_value (ds ! k) * 10 ^ (length ds - 1 - k)) [0..<length ds])"

subsection \<open>Header lines\<close>

definition captured :: "(string \<Rightarrow> string option) \<Rightarrow> string list \<Rightarrow> string list" where
  \<comment> \<open>the trimmed values that the lines matching a pattern carry, top to bottom\<close>
  "captured re ls = List.map_filter (\<lambda>raw. map_option strip (re (strip raw))) ls"

definition first_match :: "(string \<Rightarrow> string option) \<Rightarrow> string \<Rightarrow> string list \<Rightarrow> string" where
  \<comment> \<open>the value of the first matching line, the default when no line matches\<close>
  "first_match re dflt ls = (case captured re ls of [] \<Rightarrow> dflt | v # _ \<Rightarrow> v)"

definition first_match_fields :: "string \<Rightarrow> fields" where
  "first_match_fields text =
     (first_match TITLE_RE_match NO_TITLE (splitlines text),
      first_match STATUS_RE_match UNKNOWN (splitlines text),
      first_match TAGS_RE_match UNKNOWN (splitlines text))"

definition first_found :: "(string \<Rightarrow> string option) \<Rightarrow> string \<Rightarrow> string list \<Rightarrow> string" where
  \<comment> \<open>the first value that differs from the default, the default when there is none\<close>
  "first_found re dflt ls =
     (case filter (\<lambda>v. v \<noteq> dflt) (captured re ls) of [] \<Rightarrow> dflt | v # _ \<Rightarrow> v)"

definition keep_or_find ::
    "(string \<Rightarrow> string option) \<Rightarrow> string \<Rightarrow> string \<Rightarrow> string list \<Rightarrow> string" where
  \<comment> \<open>what a loop variable holds after the lines \<open>ls\<close> when it holds \<open>cur\<close> before them\<close>
  "keep_or_find re dflt cur ls = (if cur \<noteq> dflt then cur else first_found re dflt ls)"

definition bare_header :: "string \<Rightarrow> bool" where
  \<comment> \<open>a trimmed line that is one of the three markers and nothing more\<close>
  "bare_header line \<longleftrightarrow>
     map lower line = ''**status:**'' \<or> map lower line = ''**tags:**''
     \<or> (take 1 line = ''#'' \<and> map lower (dropWhile isspace (drop 1 line)) = ''[bug]:'')"

fun scan_all_lines :: "string list \<Rightarrow> fields \<Rightarrow> fields" where
  \<comment> \<open>the loop of \<^const>\<open>scan_lines\<close> without its \<^verbatim>\<open>break\<close>: every line is visited\<close>
  "scan_all_lines [] st = st"
| "scan_all_lines (raw # ls) st =
     (case loop_body raw st of
        Continue st' \<Rightarrow> scan_all_lines ls st'
      | Break st' \<Rightarrow> scan_all_lines ls st')"

definition extract_fields_no_break :: "string \<Rightarrow> fields" where
  "extract_fields_no_break text = scan_all_lines (splitlines text) (NO_TITLE, UNKNOWN, UNKNOWN)"

subsection \<open>Statistics\<close>

definition occurrences :: "(Issue \<Rightarrow> string) \<Rightarrow> Issue list \<Rightarrow> string \<Rightarrow> int" where
  \<comment> \<open>how many issues carry the value \<open>v\<close> in the field \<open>f\<close>\<close>
  "occurrences f issues v = int (length (filter (\<lambda>issue. f issue = v) issues))"

definition rendering_order :: "string list \<Rightarrow> string set \<Rightarrow> string list" where
  \<comment> \<open>the canonical values that were observed, in canonical order, then the other
      observed values in ascending order\<close>
  "rendering_order order observed =
     filter (\<lambda>v. v \<in> observed) order @ sorted_list_of_set (observed - set order)"

definition tally :: "(Issue \<Rightarrow> string) \<Rightarrow> Issue list \<Rightarrow> counts \<Rightarrow> counts" where
  \<comment> \<open>one of the two dictionaries of \<^const>\<open>count_loop\<close>, taken alone\<close>
  "tally f issues d =
     foldl (\<lambda>d issue. AList.update (f issue) (dict_get d (f issue) 0 + 1) d) d issues"

section \<open>The extraction loop\<close>

subsection \<open>The early stop\<close>

lemma break_all_found:
  "loop_body raw st = Break st' \<Longrightarrow>
     st' = st \<and> fst st \<noteq> NO_TITLE \<and> fst (snd st) \<noteq> UNKNOWN \<and> snd (snd st) \<noteq> UNKNOWN"
  by (auto simp: loop_body_def Let_def split: prod.splits option.splits if_splits)

lemma all_found_body:
  "ttl \<noteq> NO_TITLE \<Longrightarrow> sts \<noteq> UNKNOWN \<Longrightarrow> tgs \<noteq> UNKNOWN \<Longrightarrow>
     loop_body raw (ttl, sts, tgs) = Break (ttl, sts, tgs)"
  by (simp add: loop_body_def)

lemma all_found_scan_all:
  "ttl \<noteq> NO_TITLE \<Longrightarrow> sts \<noteq> UNKNOWN \<Longrightarrow> tgs \<noteq> UNKNOWN \<Longrightarrow>
     scan_all_lines ls (ttl, sts, tgs) = (ttl, sts, tgs)"
  by (induction ls) (simp_all add: all_found_body)

lemma scan_lines_eq_scan_all: "scan_lines ls st = scan_all_lines ls st"
proof (induction ls arbitrary: st)
  case Nil
  show ?case by simp
next
  case (Cons raw ls)
  show ?case
  proof (cases "loop_body raw st")
    case (Continue st')
    then show ?thesis by (simp add: Cons.IH)
  next
    case (Break st')
    obtain ttl sts tgs where st: "st = (ttl, sts, tgs)" by (cases st) auto
    from break_all_found [OF Break] st
    have "st' = st" "ttl \<noteq> NO_TITLE" "sts \<noteq> UNKNOWN" "tgs \<noteq> UNKNOWN" by simp_all
    then show ?thesis using Break st by (simp add: all_found_scan_all)
  qed
qed

text \<open>
  Claim C8. The loop that leaves with \<^verbatim>\<open>break\<close> once title, status and tags all differ
  from their sentinels returns, on every file contents, the same triple as the loop
  without the \<^verbatim>\<open>break\<close>, which visits every line to the end of the file.
\<close>

theorem early_stop_equivalence: "extract_fields text = extract_fields_no_break text"
  by (simp add: extract_fields_def extract_fields_no_break_def scan_lines_eq_scan_all)

subsection \<open>The three patterns exclude each other\<close>

lemma lower_prefix:
  "map lower (take n s) = p \<Longrightarrow> k \<le> n \<Longrightarrow> map lower (take k s) = take k p"
  by (metis min.absorb1 take_map take_take)

lemma title_excludes:
  assumes "TITLE_RE_match l = Some v"
  shows "STATUS_RE_match l = None" and "TAGS_RE_match l = None"
proof -
  from assms obtain r where l: "l = CHR ''#'' # r"
    by (auto simp: TITLE_RE_match_def split: list.splits if_splits)
  show "STATUS_RE_match l = None" "TAGS_RE_match l = None"
    by (simp_all add: l STATUS_RE_match_def TAGS_RE_match_def lower_def)
qed

lemma status_excludes:
  assumes "STATUS_RE_match l = Some v"
  shows "TAGS_RE_match l = None"
proof -
  from assms have "map lower (take 11 l) = ''**status:**''"
    by (auto simp: STATUS_RE_match_def split: if_splits)
  then have "map lower (take 9 l) = take 9 ''**status:**''"
    by (rule lower_prefix) simp
  then show ?thesis by (simp add: TAGS_RE_match_def)
qed

subsection \<open>Which line a field is taken from\<close>

lemma captured_Cons:
  "captured re (raw # ls) =
     (case re (strip raw) of Some v \<Rightarrow> strip v # captured re ls | None \<Rightarrow> captured re ls)"
  by (simp add: captured_def List.map_filter_simps split: option.splits)

lemma first_found_Nil: "first_found re dflt [] = dflt"
  by (simp add: first_found_def captured_def List.map_filter_simps)

lemma first_found_Cons:
  "first_found re dflt (raw # ls) =
     (case re (strip raw) of
        Some v \<Rightarrow> if strip v \<noteq> dflt then strip v else first_found re dflt ls
      | None \<Rightarrow> first_found re dflt ls)"
  by (simp add: first_found_def captured_Cons split: option.splits)

lemma scan_lines_first_found:
  "scan_lines ls (ttl, sts, tgs) =
     (keep_or_find TITLE_RE_match NO_TITLE ttl ls,
      keep_or_find STATUS_RE_match UNKNOWN sts ls,
      keep_or_find TAGS_RE_match UNKNOWN tgs ls)"
proof (induction ls arbitrary: ttl sts tgs)
  case Nil
  show ?case by (simp add: keep_or_find_def first_found_Nil)
next
  case (Cons raw ls)
  show ?case
    by (auto simp: loop_body_def Let_def Cons.IH keep_or_find_def first_found_Cons
        title_excludes status_excludes
        split: option.splits)
qed

lemma first_found_eq_first_match:
  assumes "dflt \<notin> set (captured re ls)"
  shows "first_found re dflt ls = first_match re dflt ls"
proof -
  have "filter (\<lambda>v. v \<noteq> dflt) (captured re ls) = captured re ls"
    using assms by (auto simp: filter_id_conv)
  then show ?thesis by (simp add: first_found_def first_match_def)
qed

lemma extract_fields_first_match:
  assumes "NO_TITLE \<notin> set (captured TITLE_RE_match (splitlines text))"
    and "UNKNOWN \<notin> set (captured STATUS_RE_match (splitlines text))"
    and "UNKNOWN \<notin> set (captured TAGS_RE_match (splitlines text))"
  shows "extract_fields text = first_match_fields text"
  using assms
  by (simp add: extract_fields_def scan_lines_first_found keep_or_find_def
      first_match_fields_def first_found_eq_first_match)

text \<open>
  Claim C3. Each of title, status and tags is to be taken from the first line, top to
  bottom and lines trimmed, that matches the field's pattern, and later matching lines
  are to be ignored. The loop captures a field once by testing that its variable still
  holds the sentinel, so it does take the first match whenever no matching line carries
  the sentinel itself, as the lemma above shows. It misses the case where the first
  matching line carries the sentinel: on the contents below the first status line says
  \<^verbatim>\<open>Unknown\<close>, the test still succeeds on the second status line, and the extracted
  status is \<^verbatim>\<open>Fixed\<close>, where the first matching line gives \<^verbatim>\<open>Unknown\<close>.
\<close>

theorem first_match_overwritten:
  "extract_fields (''**Status:** Unknown'' @ [NL] @ ''**Status:** Fixed'')
     = (''<no title>'', ''Fixed'', ''Unknown'')
   \<and> first_match_fields (''**Status:** Unknown'' @ [NL] @ ''**Status:** Fixed'')
     = (''<no title>'', ''Unknown'', ''Unknown'')"
  by code_simp

subsection \<open>Header lines with nothing after the marker\<close>

lemma remainder_group_Nil: "remainder_group [] = None"
  by (simp add: remainder_group_def)

lemma bare_header_no_match:
  assumes "bare_header line"
  shows "TITLE_RE_match line = None" and "STATUS_RE_match line = None"
    and "TAGS_RE_match line = None"
proof -
  consider (status) "map lower line = ''**status:**''"
    | (tags) "map lower line = ''**tags:**''"
    | (title) "take 1 line = ''#''" "map lower (dropWhile isspace (drop 1 line)) = ''[bug]:''"
    using assms by (auto simp: bare_header_def)
  then have "TITLE_RE_match line = None \<and> STATUS_RE_match line = None
      \<and> TAGS_RE_match line = None"
  proof cases
    case status
    then have "length (map lower line) = length ''**status:**''" by simp
    then have len: "length line = 11" by simp
    from status obtain c r where l: "line = c # r" "lower c = CHR ''*''" by (cases line) auto
    have "c \<noteq> CHR ''#''" using l by (auto simp: lower_def)
    moreover have "map lower (take 9 line) = take 9 ''**status:**''"
      by (simp only: take_map [symmetric] status)
    ultimately show ?thesis using status len l
      by (simp add: TITLE_RE_match_def STATUS_RE_match_def TAGS_RE_match_def remainder_group_Nil)
  next
    case tags
    then have "length (map lower line) = length ''**tags:**''" by simp
    then have len: "length line = 9" by simp
    from tags obtain c r where l: "line = c # r" "lower c = CHR ''*''" by (cases line) auto
    have "c \<noteq> CHR ''#''" using l by (auto simp: lower_def)
    moreover have "map lower (take 11 line) = take 11 ''**tags:**''"
      by (simp only: take_map [symmetric] tags)
    ultimately show ?thesis using tags len l
      by (simp add: TITLE_RE_match_def STATUS_RE_match_def TAGS_RE_match_def remainder_group_Nil)
  next
    case title
    from title(1) obtain r where l: "line = CHR ''#'' # r" by (cases line) auto
    from title(2) l have "length (map lower (dropWhile isspace r)) = length ''[bug]:''"
      by simp
    then have "length (dropWhile isspace r) = 6" by simp
    then show ?thesis using title(2) l
      by (simp add: TITLE_RE_match_def STATUS_RE_match_def TAGS_RE_match_def
          remainder_group_Nil lower_def)
  qed
  then show "TITLE_RE_match line = None" "STATUS_RE_match line = None"
    "TAGS_RE_match line = None"
    by simp_all
qed

lemma no_match_skips:
  assumes "TITLE_RE_match (strip raw) = None" and "STATUS_RE_match (strip raw) = None"
    and "TAGS_RE_match (strip raw) = None"
  shows "scan_lines (raw # ls) st = scan_lines ls st"
proof -
  obtain ttl sts tgs where st: "st = (ttl, sts, tgs)" by (cases st) auto
  show ?thesis
  proof (cases "ttl \<noteq> NO_TITLE \<and> sts \<noteq> UNKNOWN \<and> tgs \<noteq> UNKNOWN")
    case True
    then have "loop_body raw st = Break st" by (simp add: st all_found_body)
    moreover have "scan_lines ls st = st"
      using True by (simp add: st scan_lines_eq_scan_all all_found_scan_all)
    ultimately show ?thesis by simp
  next
    case False
    then have "loop_body raw st = Continue st"
      using assms by (auto simp: st loop_body_def Let_def)
    then show ?thesis by simp
  qed
qed

text \<open>
  Claim C10. A line that, once trimmed, is a marker with nothing after it (\<^verbatim>\<open>**Status:**\<close>,
  \<^verbatim>\<open>**Tags:**\<close>, or \<^verbatim>\<open>#\<close>, optional whitespace and \<^verbatim>\<open>[Bug]:\<close>, in any case, whatever
  whitespace surrounds the line) matches none of the field patterns. The loop passes
  over it without changing a variable, so a field that holds its sentinel keeps it and
  none becomes the empty string.
\<close>

theorem bare_header_keeps_sentinel:
  assumes "bare_header (strip raw)"
  shows "TITLE_RE_match (strip raw) = None \<and> STATUS_RE_match (strip raw) = None
    \<and> TAGS_RE_match (strip raw) = None
    \<and> scan_lines (raw # ls) st = scan_lines ls st
    \<and> scan_lines [raw] (NO_TITLE, UNKNOWN, UNKNOWN) = (NO_TITLE, UNKNOWN, UNKNOWN)"
proof -
  note none = bare_header_no_match [OF assms]
  have "scan_lines (raw # ls) st = scan_lines ls st" for ls st
    by (rule no_match_skips [OF none])
  then show ?thesis using none by simp
qed

theorem bare_header_keeps_sentinel_witness:
  "bare_header (strip (''  **Status:**'' @ [CHR 0x09]))
   \<and> STATUS_RE_match (strip (''  **Status:**'' @ [CHR 0x09])) = None
   \<and> extract_fields (''  **Status:**'' @ [CHR 0x09]) = (NO_TITLE, UNKNOWN, UNKNOWN)"
proof -
  have h: "bare_header (strip (''  **Status:**'' @ [CHR 0x09]))" by code_simp
  have l: "splitlines (''  **Status:**'' @ [CHR 0x09]) = [''  **Status:**'' @ [CHR 0x09]]"
    by code_simp
  from bare_header_keeps_sentinel [OF h] h l show ?thesis
    by (simp add: extract_fields_def)
qed

section \<open>File names\<close>

subsection \<open>The search and the segments of a name\<close>

lemma underscore_not_digit: "\<not> isdigit (CHR ''_'')"
  by (simp add: isdigit_def)

lemma match_Nil: "BUG_NUMBER_RE_match [] = None"
  by (simp add: BUG_NUMBER_RE_match_def)

lemma match_iff:
  "BUG_NUMBER_RE_match t = Some ds \<longleftrightarrow>
     map lower (take 4 t) = ''_bug'' \<and> ds = takeWhile isdigit (drop 4 t) \<and> ds \<noteq> []
     \<and> take 1 (dropWhile isdigit (drop 4 t)) = ''_''"
  by (auto simp: BUG_NUMBER_RE_match_def Let_def)

lemma segment_match:
  assumes "bug_segment_at s i n"
  shows "BUG_NUMBER_RE_match (drop i s) = Some (take n (drop (i + 4) s))"
proof -
  define u where "u = drop 4 (drop i s)"
  have u: "drop (i + 4) s = u" by (simp add: u_def add.commute)
  from assms have pre: "map lower (take 4 (drop i s)) = ''_bug''" and n: "0 < n"
    and len': "i + 4 + n < length s" and dig: "list_all isdigit (take n u)"
    and us': "s ! (i + 4 + n) = CHR ''_''"
    by (simp_all add: bug_segment_at_def u)
  have len: "n < length u" using len' by (simp add: u [symmetric])
  have "u ! n = s ! (i + 4 + n)" using len' by (simp add: u [symmetric])
  then have us: "u ! n = CHR ''_''" by (simp add: us')
  have "\<And>k. k < n \<Longrightarrow> isdigit (u ! k)"
    using dig len by (auto simp: list_all_length)
  moreover have "\<not> isdigit (u ! n)" by (simp add: us underscore_not_digit)
  ultimately have tw: "takeWhile isdigit u = take n u"
    by (intro takeWhile_eq_take_P_nth) auto
  then have "length (takeWhile isdigit u) = n" using len by simp
  then have dw: "dropWhile isdigit u = drop n u"
    by (simp add: dropWhile_eq_drop)
  have "take 1 (drop n u) = [u ! n]"
    using len by (simp add: take_Suc_conv_app_nth)
  then have "take 1 (dropWhile isdigit u) = ''_''" by (simp only: dw us)
  moreover have "take n u \<noteq> []" using n len by auto
  ultimately have "BUG_NUMBER_RE_match (drop i s) = Some (take n u)"
    unfolding match_iff u_def [symmetric] using pre tw by simp
  then show ?thesis by (simp only: u)
qed

lemma match_segment:
  assumes "BUG_NUMBER_RE_match (drop i s) = Some ds"
  shows "bug_segment_at s i (length ds) \<and> ds = take (length ds) (drop (i + 4) s)"
proof -
  define u where "u = drop 4 (drop i s)"
  have u: "drop (i + 4) s = u" by (simp add: u_def add.commute)
  from assms have pre: "map lower (take 4 (drop i s)) = ''_bug''"
    and ds: "ds = takeWhile isdigit u" and ne: "ds \<noteq> []"
    and us: "take 1 (dropWhile isdigit u) = ''_''"
    unfolding match_iff u_def [symmetric] by blast+
  have dw: "dropWhile isdigit u = drop (length ds) u"
    by (simp add: ds dropWhile_eq_drop)
  from us dw have len: "length ds < length u" by (cases "length ds < length u") auto
  with us dw have "u ! length ds = CHR ''_''"
    by (simp add: take_Suc_conv_app_nth)
  moreover have "u ! length ds = s ! (i + 4 + length ds)"
    using len by (simp add: u [symmetric])
  ultimately have us': "s ! (i + 4 + length ds) = CHR ''_''" by simp
  have len': "i + 4 + length ds < length s" using len by (simp add: u [symmetric])
  have tk: "take (length ds) u = ds"
    by (simp add: ds takeWhile_eq_take [symmetric])
  have "list_all isdigit ds"
    by (simp add: ds list_all_iff) (meson set_takeWhileD)
  then show ?thesis using pre ne len' us' tk
    by (simp add: bug_segment_at_def u)
qed

lemma search_first:
  "BUG_NUMBER_RE_match (drop i s) = Some ds \<Longrightarrow>
   (\<And>j. j < i \<Longrightarrow> BUG_NUMBER_RE_match (drop j s) = None) \<Longrightarrow>
   BUG_NUMBER_RE_search s = Some ds"
proof (induction s arbitrary: i)
  case Nil
  then show ?case by (simp add: match_Nil)
next
  case (Cons c cs)
  show ?case
  proof (cases i)
    case 0
    with Cons.prems(1) show ?thesis by simp
  next
    case (Suc k)
    have "BUG_NUMBER_RE_match (drop 0 (c # cs)) = None"
      by (rule Cons.prems(2)) (simp add: Suc)
    then have here: "BUG_NUMBER_RE_match (c # cs) = None" by simp
    have "BUG_NUMBER_RE_search cs = Some ds"
    proof (rule Cons.IH [of k])
      show "BUG_NUMBER_RE_match (drop k cs) = Some ds"
        using Cons.prems(1) Suc by simp
    next
      fix j assume "j < k"
      then have "BUG_NUMBER_RE_match (drop (Suc j) (c # cs)) = None"
        by (intro Cons.prems(2)) (simp add: Suc)
      then show "BUG_NUMBER_RE_match (drop j cs) = None" by simp
    qed
    with here show ?thesis by simp
  qed
qed

lemma search_None:
  "BUG_NUMBER_RE_search s = None \<longleftrightarrow> (\<forall>i. BUG_NUMBER_RE_match (drop i s) = None)"
proof (induction s)
  case Nil
  show ?case by (simp add: match_Nil)
next
  case (Cons c cs)
  show ?case
  proof
    assume a: "BUG_NUMBER_RE_search (c # cs) = None"
    then have h: "BUG_NUMBER_RE_match (c # cs) = None" and t: "BUG_NUMBER_RE_search cs = None"
      by (auto split: option.splits)
    show "\<forall>i. BUG_NUMBER_RE_match (drop i (c # cs)) = None"
    proof
      fix i show "BUG_NUMBER_RE_match (drop i (c # cs)) = None"
        using h t Cons.IH by (cases i) auto
    qed
  next
    assume a: "\<forall>i. BUG_NUMBER_RE_match (drop i (c # cs)) = None"
    then have "BUG_NUMBER_RE_match (drop 0 (c # cs)) = None" by blast
    moreover have "\<forall>i. BUG_NUMBER_RE_match (drop i cs) = None"
    proof
      fix i from a have "BUG_NUMBER_RE_match (drop (Suc i) (c # cs)) = None" by blast
      then show "BUG_NUMBER_RE_match (drop i cs) = None" by simp
    qed
    ultimately show "BUG_NUMBER_RE_search (c # cs) = None"
      using Cons.IH by simp
  qed
qed

lemma contains_bug_pattern_iff:
  "contains_bug_pattern s \<longleftrightarrow> (\<exists>i n. bug_segment_at s i n)"
proof
  assume "contains_bug_pattern s"
  then show "\<exists>i n. bug_segment_at s i n"
    by (auto simp: contains_bug_pattern_def list_ex_iff)
next
  assume "\<exists>i n. bug_segment_at s i n"
  then obtain i n where seg: "bug_segment_at s i n" by blast
  then have "i < length s" "n < length s" by (auto simp: bug_segment_at_def)
  with seg show "contains_bug_pattern s"
    unfolding contains_bug_pattern_def list_ex_iff
    by (intro bexI [of _ i] bexI [of _ n]) auto
qed

lemma search_iff_contains:
  "BUG_NUMBER_RE_search s \<noteq> None \<longleftrightarrow> contains_bug_pattern s"
proof
  assume "BUG_NUMBER_RE_search s \<noteq> None"
  then obtain i ds where "BUG_NUMBER_RE_match (drop i s) = Some ds"
    using search_None [of s] by auto
  then show "contains_bug_pattern s"
    using match_segment contains_bug_pattern_iff by blast
next
  assume "contains_bug_pattern s"
  then obtain i n where "bug_segment_at s i n" using contains_bug_pattern_iff by blast
  then have "BUG_NUMBER_RE_match (drop i s) \<noteq> None" by (simp add: segment_match)
  then show "BUG_NUMBER_RE_search s \<noteq> None" using search_None [of s] by auto
qed

lemma first_segment_search:
  assumes "first_bug_segment s i n"
  shows "BUG_NUMBER_RE_search s = Some (take n (drop (i + 4) s))"
proof (rule search_first [of i])
  show "BUG_NUMBER_RE_match (drop i s) = Some (take n (drop (i + 4) s))"
    using assms by (simp add: first_bug_segment_def segment_match)
next
  fix j assume j: "j < i"
  show "BUG_NUMBER_RE_match (drop j s) = None"
  proof (rule ccontr)
    assume "BUG_NUMBER_RE_match (drop j s) \<noteq> None"
    then obtain ds where "BUG_NUMBER_RE_match (drop j s) = Some ds" by auto
    then have seg: "bug_segment_at s j (length ds)" using match_segment by blast
    then have "length ds < length s" by (auto simp: bug_segment_at_def)
    with seg j assms show False
      by (auto simp: first_bug_segment_def list_all_iff)
  qed
qed

lemma py_int_snoc: "py_int (ds @ [c]) = 10 * py_int ds + digit_value c"
  by (simp add: py_int_def)

lemma decimal_value_snoc: "decimal_value (ds @ [c]) = 10 * decimal_value ds + digit_value c"
proof -
  have eq: "map (\<lambda>k. digit_value ((ds @ [c]) ! k) * 10 ^ (length ds - k)) [0..<length ds]
        = map (\<lambda>k. 10 * (digit_value (ds ! k) * 10 ^ (length ds - 1 - k))) [0..<length ds]"
  proof (rule map_cong [OF refl])
    fix k assume "k \<in> set [0..<length ds]"
    then have k: "k < length ds" by simp
    then have "length ds - k = Suc (length ds - 1 - k)" by simp
    then show "digit_value ((ds @ [c]) ! k) * 10 ^ (length ds - k)
        = 10 * (digit_value (ds ! k) * 10 ^ (length ds - 1 - k))"
      using k by (simp add: nth_append)
  qed
  have "decimal_value (ds @ [c])
      = (\<Sum>k\<leftarrow>[0..<length ds]. digit_value ((ds @ [c]) ! k) * 10 ^ (length ds - k))
        + digit_value c"
    by (simp add: decimal_value_def)
  also have "\<dots> = (\<Sum>k\<leftarrow>[0..<length ds]. 10 * (digit_value (ds ! k) * 10 ^ (length ds - 1 - k)))
        + digit_value c"
    by (simp only: eq)
  also have "\<dots> = 10 * decimal_value ds + digit_value c"
    by (simp only: sum_list_const_mult decimal_value_def)
  finally show ?thesis .
qed

lemma py_int_decimal_value: "py_int ds = decimal_value ds"
proof (induction ds rule: rev_induct)
  case Nil
  show ?case by (simp add: py_int_def decimal_value_def)
next
  case (snoc c ds)
  then show ?case by (simp add: py_int_snoc decimal_value_snoc)
qed

lemma decimal_value_leading_zero: "decimal_value (CHR ''0'' # ds) = decimal_value ds"
  by (simp add: py_int_decimal_value [symmetric] py_int_def digit_value_def)

section \<open>The corpus\<close>

subsection \<open>The loop of main, path by path\<close>

lemma collect_concat:
  "collect paths (issues, err) =
     (issues @ concat (map issues_of paths), err @ concat (map printed_by paths))"
  by (induction paths arbitrary: issues err)
    (auto simp: issues_of_def printed_by_def split: prod.splits option.splits)

lemma corpus_concat: "corpus listing = concat (map issues_of (sort_key name (glob_md listing)))"
  by (simp add: corpus_def scan_def collect_concat)

lemma stderr_concat:
  "snd (scan listing) = concat (map printed_by (sort_key name (glob_md listing)))"
  by (simp add: scan_def collect_concat)

lemma set_corpus: "set (corpus listing) = (\<Union>p \<in> set (glob_md listing). set (issues_of p))"
  by (simp add: corpus_concat)

lemma report_name_no_match: "BUG_NUMBER_RE_search ''ISSUES_REPORT.md'' = None"
  by code_simp

lemma parse_issue_Text:
  assumes "read_text p = Text text" and "BUG_NUMBER_RE_search (name p) = Some g"
  shows "parse_issue p =
    (Some \<lparr>filename = name p, bug_number = py_int g,
           title = fst (extract_fields text),
           status = fst (snd (extract_fields text)),
           tags = snd (snd (extract_fields text))\<rparr>, [])"
  using assms by (simp add: parse_issue_def split: prod.splits)

lemma parse_issue_Some:
  assumes "fst (parse_issue p) = Some issue"
  shows "filename issue = name p" and "BUG_NUMBER_RE_search (name p) \<noteq> None"
    and "\<exists>text. read_text p = Text text"
  using assms
  by (auto simp: parse_issue_def split: option.splits read_result.splits prod.splits)

lemma issues_of_Text:
  assumes "read_text p = Text text" and "BUG_NUMBER_RE_search (name p) = Some g"
  shows "issues_of p =
    [\<lparr>filename = name p, bug_number = py_int g,
      title = fst (extract_fields text),
      status = fst (snd (extract_fields text)),
      tags = snd (snd (extract_fields text))\<rparr>]"
proof -
  have "name p \<noteq> ''ISSUES_REPORT.md''"
    using assms(2) report_name_no_match by auto
  then show ?thesis by (simp add: issues_of_def parse_issue_Text [OF assms])
qed

lemma issues_of_member:
  assumes "issue \<in> set (issues_of p)"
  shows "filename issue = name p" and "contains_bug_pattern (name p)"
    and "name p \<noteq> ''ISSUES_REPORT.md''" and "\<exists>text. read_text p = Text text"
proof -
  from assms have ne: "name p \<noteq> ''ISSUES_REPORT.md''" and "fst (parse_issue p) = Some issue"
    by (auto simp: issues_of_def split: if_splits option.splits)
  from parse_issue_Some [OF this(2)] ne
  show "filename issue = name p" "contains_bug_pattern (name p)"
    "name p \<noteq> ''ISSUES_REPORT.md''" "\<exists>text. read_text p = Text text"
    by (simp_all add: search_iff_contains [symmetric])
qed

text \<open>
  Claim C1, amended. For every file of the scanned directory (an entry that
  \<^verbatim>\<open>glob("*.md")\<close> yields) whose contents can be read, the corpus holds an issue of that
  file name if and only if the name contains \<^verbatim>\<open>_bug\<close>, digits and \<^verbatim>\<open>_\<close>, in any case. A file
  whose name lacks that substring is excluded whatever its contents, and no issue of the
  corpus is named \<^verbatim>\<open>ISSUES_REPORT.md\<close>.
\<close>

theorem corpus_membership:
  assumes "p \<in> set (glob_md listing)" and "read_text p = Text text"
  shows "((\<exists>issue \<in> set (corpus listing). filename issue = name p)
            \<longleftrightarrow> contains_bug_pattern (name p))
    \<and> (\<forall>q. \<not> contains_bug_pattern (name q)
            \<longrightarrow> (\<forall>issue \<in> set (corpus listing). filename issue \<noteq> name q))
    \<and> (\<forall>issue \<in> set (corpus listing). filename issue \<noteq> ''ISSUES_REPORT.md'')"
proof (intro conjI)
  show "(\<exists>issue \<in> set (corpus listing). filename issue = name p)
      \<longleftrightarrow> contains_bug_pattern (name p)"
  proof
    assume "\<exists>issue \<in> set (corpus listing). filename issue = name p"
    then obtain issue q where "issue \<in> set (issues_of q)" "filename issue = name p"
      by (auto simp: set_corpus)
    then show "contains_bug_pattern (name p)"
      using issues_of_member(1,2) by metis
  next
    assume "contains_bug_pattern (name p)"
    then obtain g where "BUG_NUMBER_RE_search (name p) = Some g"
      using search_iff_contains by auto
    from issues_of_Text [OF assms(2) this] assms(1)
    show "\<exists>issue \<in> set (corpus listing). filename issue = name p"
      by (auto simp: set_corpus intro!: bexI [of _ p])
  qed
next
  show "\<forall>q. \<not> contains_bug_pattern (name q)
      \<longrightarrow> (\<forall>issue \<in> set (corpus listing). filename issue \<noteq> name q)"
    using issues_of_member(1,2) by (fastforce simp: set_corpus)
next
  show "\<forall>issue \<in> set (corpus listing). filename issue \<noteq> ''ISSUES_REPORT.md''"
    using issues_of_member(1,3) by (fastforce simp: set_corpus)
qed

theorem corpus_membership_witness:
  "\<lparr>name = ''2026-02-19_ISSUE_bug1_foo.md'',
     path_str = ''docs/issues/2026-02-19_ISSUE_bug1_foo.md'',
     read_text = Text ''# [Bug]: Foo''\<rparr>
     \<in> set (glob_md [\<lparr>name = ''2026-02-19_ISSUE_bug1_foo.md'',
                        path_str = ''docs/issues/2026-02-19_ISSUE_bug1_foo.md'',
                        read_text = Text ''# [Bug]: Foo''\<rparr>])
   \<and> contains_bug_pattern ''2026-02-19_ISSUE_bug1_foo.md''
   \<and> (\<exists>issue \<in> set (corpus [\<lparr>name = ''2026-02-19_ISSUE_bug1_foo.md'',
                        path_str = ''docs/issues/2026-02-19_ISSUE_bug1_foo.md'',
                        read_text = Text ''# [Bug]: Foo''\<rparr>]).
         filename issue = ''2026-02-19_ISSUE_bug1_foo.md'')"
proof -
  let ?p = "\<lparr>name = ''2026-02-19_ISSUE_bug1_foo.md'',
     path_str = ''docs/issues/2026-02-19_ISSUE_bug1_foo.md'',
     read_text = Text ''# [Bug]: Foo''\<rparr>"
  have g: "?p \<in> set (glob_md [?p])" by (simp add: glob_md_def)
  have r: "read_text ?p = Text ''# [Bug]: Foo''" by simp
  have c: "contains_bug_pattern ''2026-02-19_ISSUE_bug1_foo.md''" by code_simp
  have n: "name ?p = ''2026-02-19_ISSUE_bug1_foo.md''" by simp
  from corpus_membership [OF g r]
  have "(\<exists>issue \<in> set (corpus [?p]). filename issue = name ?p)
      \<longleftrightarrow> contains_bug_pattern (name ?p)"
    by (rule conjunct1)
  with c have "\<exists>issue \<in> set (corpus [?p]). filename issue = ''2026-02-19_ISSUE_bug1_foo.md''"
    by (simp only: n)
  with g c show ?thesis by blast
qed

text \<open>
  Claim C1, as stated, makes every file whose name matches a member of the corpus. A
  file whose name matches and whose contents cannot be read is left out: \<^verbatim>\<open>parse_issue\<close>
  catches the \<^verbatim>\<open>OSError\<close> and returns \<^verbatim>\<open>None\<close>.
\<close>

theorem corpus_membership_counterexample:
  "contains_bug_pattern ''2026-02-20_ISSUE_bug2_bar.md''
   \<and> corpus [\<lparr>name = ''2026-02-20_ISSUE_bug2_bar.md'',
               path_str = ''docs/issues/2026-02-20_ISSUE_bug2_bar.md'',
               read_text = OSError ''Permission denied''\<rparr>] = []"
  by code_simp

text \<open>
  Claim C2. When the first segment \<^verbatim>\<open>_bug\<close>, digits, \<^verbatim>\<open>_\<close> of a file name starts at position
  \<open>i\<close> and has \<open>n\<close> digits, the search captures exactly these digits, and the issue parsed
  from a readable file of that name has as \<^verbatim>\<open>bug_number\<close> the number they denote in
  decimal; leading zeros add nothing to it.
\<close>

theorem bug_number_value:
  assumes "first_bug_segment (name p) i n" and "read_text p = Text text"
  shows "BUG_NUMBER_RE_search (name p) = Some (take n (drop (i + 4) (name p)))
    \<and> (\<exists>issue. parse_issue p = (Some issue, [])
          \<and> bug_number issue = decimal_value (take n (drop (i + 4) (name p))))"
proof -
  note s = first_segment_search [OF assms(1)]
  from parse_issue_Text [OF assms(2) s] s show ?thesis
    by (simp add: py_int_decimal_value)
qed

theorem bug_number_value_witness:
  "first_bug_segment ''2026-02-19_ISSUE_bug007_foo_bug9_.md'' 16 3
   \<and> decimal_value ''007'' = 7
   \<and> (\<exists>issue. parse_issue \<lparr>name = ''2026-02-19_ISSUE_bug007_foo_bug9_.md'',
                     path_str = ''docs/issues/2026-02-19_ISSUE_bug007_foo_bug9_.md'',
                     read_text = Text ''# [Bug]: Foo''\<rparr> = (Some issue, [])
         \<and> bug_number issue = 7)"
proof -
  let ?p = "\<lparr>name = ''2026-02-19_ISSUE_bug007_foo_bug9_.md'',
                     path_str = ''docs/issues/2026-02-19_ISSUE_bug007_foo_bug9_.md'',
                     read_text = Text ''# [Bug]: Foo''\<rparr>"
  have f: "first_bug_segment ''2026-02-19_ISSUE_bug007_foo_bug9_.md'' 16 3" by code_simp
  then have f': "first_bug_segment (name ?p) 16 3" by simp
  have r: "read_text ?p = Text ''# [Bug]: Foo''" by simp
  have t: "take 3 (drop (16 + 4) ''2026-02-19_ISSUE_bug007_foo_bug9_.md'') = ''007''" by code_simp
  have d: "decimal_value ''007'' = 7" by code_simp
  from bug_number_value [OF f' r] f d t show ?thesis by simp
qed

subsection \<open>Files with missing header lines\<close>

lemma first_found_no_match:
  assumes "list_all (\<lambda>l. re (strip l) = None) ls"
  shows "first_found re dflt ls = dflt"
  using assms by (induction ls) (simp_all add: first_found_Nil first_found_Cons)

text \<open>
  Claim C4, amended. For every readable file of the scanned directory whose name matches
  the pattern, the corpus holds the issue parsed from it, and each of title, status and
  tags for which the contents have no matching line holds its sentinel: \<^verbatim>\<open><no title>\<close>
  for the title, \<^verbatim>\<open>Unknown\<close> for status and tags.
\<close>

theorem missing_fields_default:
  assumes "p \<in> set (glob_md listing)" and "contains_bug_pattern (name p)"
    and "read_text p = Text text"
  shows "\<exists>issue \<in> set (corpus listing).
      fst (parse_issue p) = Some issue \<and> filename issue = name p
      \<and> (list_all (\<lambda>l. TITLE_RE_match (strip l) = None) (splitlines text)
            \<longrightarrow> title issue = ''<no title>'')
      \<and> (list_all (\<lambda>l. STATUS_RE_match (strip l) = None) (splitlines text)
            \<longrightarrow> status issue = ''Unknown'')
      \<and> (list_all (\<lambda>l. TAGS_RE_match (strip l) = None) (splitlines text)
            \<longrightarrow> tags issue = ''Unknown'')"
proof -
  from assms(2) obtain g where g: "BUG_NUMBER_RE_search (name p) = Some g"
    using search_iff_contains by auto
  let ?issue = "\<lparr>filename = name p, bug_number = py_int g,
      title = fst (extract_fields text),
      status = fst (snd (extract_fields text)),
      tags = snd (snd (extract_fields text))\<rparr>"
  have "?issue \<in> set (corpus listing)"
    using issues_of_Text [OF assms(3) g] assms(1) by (auto simp: set_corpus intro!: bexI [of _ p])
  moreover have "fst (parse_issue p) = Some ?issue"
    by (simp add: parse_issue_Text [OF assms(3) g])
  moreover have "extract_fields text =
     (first_found TITLE_RE_match NO_TITLE (splitlines text),
      first_found STATUS_RE_match UNKNOWN (splitlines text),
      first_found TAGS_RE_match UNKNOWN (splitlines text))"
    by (simp add: extract_fields_def scan_lines_first_found keep_or_find_def)
  ultimately show ?thesis
    by (intro bexI [of _ ?issue])
      (simp_all add: first_found_no_match NO_TITLE_def [symmetric] UNKNOWN_def [symmetric])
qed

theorem missing_fields_default_witness:
  "\<lparr>name = ''2026-02-19_ISSUE_bug1_foo.md'',
     path_str = ''docs/issues/2026-02-19_ISSUE_bug1_foo.md'',
     read_text = Text ''**Status:** Open''\<rparr>
     \<in> set (glob_md [\<lparr>name = ''2026-02-19_ISSUE_bug1_foo.md'',
                        path_str = ''docs/issues/2026-02-19_ISSUE_bug1_foo.md'',
                        read_text = Text ''**Status:** Open''\<rparr>])
   \<and> contains_bug_pattern ''2026-02-19_ISSUE_bug1_foo.md''
   \<and> list_all (\<lambda>l. TITLE_RE_match (strip l) = None) (splitlines ''**Status:** Open'')
   \<and> list_all (\<lambda>l. TAGS_RE_match (strip l) = None) (splitlines ''**Status:** Open'')
   \<and> (\<exists>issue \<in> set (corpus [\<lparr>name = ''2026-02-19_ISSUE_bug1_foo.md'',
                        path_str = ''docs/issues/2026-02-19_ISSUE_bug1_foo.md'',
                        read_text = Text ''**Status:** Open''\<rparr>]).
         title issue = ''<no title>'' \<and> tags issue = ''Unknown'')"
proof -
  let ?p = "\<lparr>name = ''2026-02-19_ISSUE_bug1_foo.md'',
     path_str = ''docs/issues/2026-02-19_ISSUE_bug1_foo.md'',
     read_text = Text ''**Status:** Open''\<rparr>"
  have g: "?p \<in> set (glob_md [?p])" by (simp add: glob_md_def)
  have r: "read_text ?p = Text ''**Status:** Open''" by simp
  have c: "contains_bug_pattern ''2026-02-19_ISSUE_bug1_foo.md''" by code_simp
  then have c': "contains_bug_pattern (name ?p)" by simp
  have t: "list_all (\<lambda>l. TITLE_RE_match (strip l) = None) (splitlines ''**Status:** Open'')"
    by code_simp
  have u: "list_all (\<lambda>l. TAGS_RE_match (strip l) = None) (splitlines ''**Status:** Open'')"
    by code_simp
  from missing_fields_default [OF g c' r] t u
  have "\<exists>issue \<in> set (corpus [?p]). title issue = ''<no title>'' \<and> tags issue = ''Unknown''"
    by blast
  with g c t u show ?thesis by blast
qed

text \<open>
  Claim C4, as stated, names \<^verbatim>\<open>no title\<close> as the sentinel of the title. The string the code
  assigns, and the report shows, is \<^verbatim>\<open><no title>\<close>, with the angle brackets.
\<close>

theorem missing_fields_default_counterexample:
  "map title (corpus [\<lparr>name = ''2026-02-19_ISSUE_bug1_foo.md'',
                        path_str = ''docs/issues/2026-02-19_ISSUE_bug1_foo.md'',
                        read_text = Text ''**Status:** Open''\<rparr>]) = [''<no title>'']
   \<and> map title (corpus [\<lparr>name = ''2026-02-19_ISSUE_bug1_foo.md'',
                        path_str = ''docs/issues/2026-02-19_ISSUE_bug1_foo.md'',
                        read_text = Text ''**Status:** Open''\<rparr>]) \<noteq> [''no title'']"
  by code_simp

subsection \<open>Read failures\<close>

lemma concat_map_filter_empty:
  assumes "f p = []"
  shows "concat (map f (filter (\<lambda>q. q \<noteq> p) xs)) = concat (map f xs)"
  using assms by (induction xs) auto

lemma filter_concat_map:
  "filter P (concat (map f xs)) = concat (map (\<lambda>x. filter P (f x)) xs)"
  by (induction xs) auto

lemma glob_md_filter: "glob_md (filter P listing) = filter P (glob_md listing)"
  by (auto simp: glob_md_def intro: filter_cong)

lemma sorted_glob_filter:
  "sort_key name (glob_md (filter P listing)) = filter P (sort_key name (glob_md listing))"
  by (simp add: glob_md_filter filter_sort)

lemma parse_issue_OSError:
  assumes "contains_bug_pattern (name p)" and "read_text p = OSError exc"
  shows "parse_issue p = (None, [read_warning (path_str p) exc])"
proof -
  from assms(1) obtain g where "BUG_NUMBER_RE_search (name p) = Some g"
    using search_iff_contains by auto
  then show ?thesis using assms(2) by (simp add: parse_issue_def)
qed

text \<open>
  Claim C9. For every file of the scanned directory whose name matches the pattern and
  whose read raises \<^verbatim>\<open>OSError\<close>, \<^verbatim>\<open>parse_issue\<close> returns \<^verbatim>\<open>None\<close> and prints one warning
  that carries the path and the error; the warning is in the error stream of the run,
  and the corpus, the report and all other diagnostics are those of the run on the
  directory without that file.
\<close>

theorem read_failure_skips_file:
  assumes "p \<in> set (glob_md listing)" and "contains_bug_pattern (name p)"
    and "read_text p = OSError exc"
  shows "parse_issue p = (None, [read_warning (path_str p) exc])
    \<and> read_warning (path_str p) exc \<in> set (snd (scan listing))
    \<and> corpus listing = corpus (filter (\<lambda>q. q \<noteq> p) listing)
    \<and> fst (main_report listing) = fst (main_report (filter (\<lambda>q. q \<noteq> p) listing))
    \<and> filter (\<lambda>w. w \<noteq> read_warning (path_str p) exc) (snd (scan listing))
        = filter (\<lambda>w. w \<noteq> read_warning (path_str p) exc)
            (snd (scan (filter (\<lambda>q. q \<noteq> p) listing)))"
proof -
  let ?w = "read_warning (path_str p) exc"
  let ?rest = "filter (\<lambda>q. q \<noteq> p) listing"
  note pi = parse_issue_OSError [OF assms(2,3)]
  have "BUG_NUMBER_RE_search (name p) \<noteq> None"
    using assms(2) by (simp only: search_iff_contains)
  then have ne: "name p \<noteq> ''ISSUES_REPORT.md''"
    using report_name_no_match by metis
  have io: "issues_of p = []" by (simp add: issues_of_def pi)
  have pr: "printed_by p = [?w]" by (simp add: printed_by_def pi ne)
  have "?w \<in> set (snd (scan listing))"
    using assms(1) pr by (auto simp: stderr_concat intro!: bexI [of _ p])
  moreover have c: "corpus listing = corpus ?rest"
    using io by (simp add: corpus_concat sorted_glob_filter
        concat_map_filter_empty [where f = issues_of and p = p])
  moreover have "fst (main_report listing) = fst (main_report ?rest)"
    using c by (auto simp: main_report_def corpus_def split: prod.splits)
  moreover have "filter (\<lambda>w. w \<noteq> ?w) (snd (scan listing))
      = filter (\<lambda>w. w \<noteq> ?w) (snd (scan ?rest))"
  proof -
    have "filter (\<lambda>w. w \<noteq> ?w) (printed_by p) = []" by (simp add: pr)
    then show ?thesis
      by (simp add: stderr_concat sorted_glob_filter filter_concat_map
          concat_map_filter_empty
            [where f = "\<lambda>x. filter (\<lambda>w. w \<noteq> ?w) (printed_by x)" and p = p])
  qed
  ultimately show ?thesis using pi by simp
qed

theorem read_failure_skips_file_witness:
  "\<lparr>name = ''2026-02-20_ISSUE_bug2_bar.md'',
     path_str = ''docs/issues/2026-02-20_ISSUE_bug2_bar.md'',
     read_text = OSError ''Permission denied''\<rparr>
     \<in> set (glob_md
          [\<lparr>name = ''2026-02-20_ISSUE_bug2_bar.md'',
             path_str = ''docs/issues/2026-02-20_ISSUE_bug2_bar.md'',
             read_text = OSError ''Permission denied''\<rparr>,
           \<lparr>name = ''2026-02-19_ISSUE_bug1_foo.md'',
             path_str = ''docs/issues/2026-02-19_ISSUE_bug1_foo.md'',
             read_text = Text ''# [Bug]: Foo''\<rparr>])
   \<and> contains_bug_pattern ''2026-02-20_ISSUE_bug2_bar.md''
   \<and> ''[WARN] Cannot read docs/issues/2026-02-20_ISSUE_bug2_bar.md: Permission denied''
       \<in> set (snd (scan
          [\<lparr>name = ''2026-02-20_ISSUE_bug2_bar.md'',
             path_str = ''docs/issues/2026-02-20_ISSUE_bug2_bar.md'',
             read_text = OSError ''Permission denied''\<rparr>,
           \<lparr>name = ''2026-02-19_ISSUE_bug1_foo.md'',
             path_str = ''docs/issues/2026-02-19_ISSUE_bug1_foo.md'',
             read_text = Text ''# [Bug]: Foo''\<rparr>]))
   \<and> map filename (corpus
          [\<lparr>name = ''2026-02-20_ISSUE_bug2_bar.md'',
             path_str = ''docs/issues/2026-02-20_ISSUE_bug2_bar.md'',
             read_text = OSError ''Permission denied''\<rparr>,
           \<lparr>name = ''2026-02-19_ISSUE_bug1_foo.md'',
             path_str = ''docs/issues/2026-02-19_ISSUE_bug1_foo.md'',
             read_text = Text ''# [Bug]: Foo''\<rparr>]) = [''2026-02-19_ISSUE_bug1_foo.md'']"
proof -
  let ?p = "\<lparr>name = ''2026-02-20_ISSUE_bug2_bar.md'',
     path_str = ''docs/issues/2026-02-20_ISSUE_bug2_bar.md'',
     read_text = OSError ''Permission denied''\<rparr>"
  let ?q = "\<lparr>name = ''2026-02-19_ISSUE_bug1_foo.md'',
             path_str = ''docs/issues/2026-02-19_ISSUE_bug1_foo.md'',
             read_text = Text ''# [Bug]: Foo''\<rparr>"
  have g: "?p \<in> set (glob_md [?p, ?q])" by (simp add: glob_md_def)
  have c: "contains_bug_pattern ''2026-02-20_ISSUE_bug2_bar.md''" by code_simp
  then have c': "contains_bug_pattern (name ?p)" by simp
  have r: "read_text ?p = OSError ''Permission denied''" by simp
  have f: "filter (\<lambda>q. q \<noteq> ?p) [?p, ?q] = [?q]" by simp
  have q: "map filename (corpus [?q]) = [''2026-02-19_ISSUE_bug1_foo.md'']" by code_simp
  have w: "read_warning (path_str ?p) ''Permission denied''
      = ''[WARN] Cannot read docs/issues/2026-02-20_ISSUE_bug2_bar.md: Permission denied''"
    by (simp add: read_warning_def)
  from read_failure_skips_file [OF g c' r]
  have "read_warning (path_str ?p) ''Permission denied'' \<in> set (snd (scan [?p, ?q]))"
    and "corpus [?p, ?q] = corpus (filter (\<lambda>q. q \<noteq> ?p) [?p, ?q])"
    by blast+
  then have "''[WARN] Cannot read docs/issues/2026-02-20_ISSUE_bug2_bar.md: Permission denied''
       \<in> set (snd (scan [?p, ?q]))"
    and "map filename (corpus [?p, ?q]) = [''2026-02-19_ISSUE_bug1_foo.md'']"
    by (simp_all only: w f q)
  with g c show ?thesis by blast
qed

section \<open>The report\<close>

subsection \<open>The statistics tables\<close>

lemma count_loop_tally:
  "count_loop issues (sc, tc) = (tally status issues sc, tally tags issues tc)"
  by (induction issues arbitrary: sc tc) (simp_all add: tally_def)

lemma tally_Cons:
  "tally f (issue # issues) d
     = tally f issues (AList.update (f issue) (dict_get d (f issue) 0 + 1) d)"
  by (simp add: tally_def)

lemma occurrences_Cons:
  "occurrences f (issue # issues) v
     = (if f issue = v then 1 else 0) + occurrences f issues v"
  by (simp add: occurrences_def)

lemma occurrences_pos: "0 < occurrences f issues v \<longleftrightarrow> v \<in> f ` set issues"
  by (auto simp: occurrences_def filter_empty_conv)

lemma map_of_tally:
  "map_of (tally f issues d) k =
     (if k \<in> f ` set issues \<or> k \<in> dom (map_of d)
      then Some (dict_get d k 0 + occurrences f issues k) else None)"
proof (induction issues arbitrary: d)
  case Nil
  show ?case by (auto simp: tally_def occurrences_def dict_get_def)
next
  case (Cons issue issues)
  show ?case
    by (auto simp: tally_Cons Cons.IH occurrences_Cons update_conv' dict_get_def
        split: option.splits)
qed

lemma distinct_tally: "distinct (map fst d) \<Longrightarrow> distinct (map fst (tally f issues d))"
  by (induction issues arbitrary: d) (simp_all add: tally_def distinct_update)

lemma tally_Nil: "tally f [] d = d"
  by (simp add: tally_def)

lemma keys_tally: "fst ` set (tally f issues d) = f ` set issues \<union> fst ` set d"
proof (induction issues arbitrary: d)
  case Nil
  show ?case by (simp add: tally_Nil)
next
  case (Cons issue issues)
  show ?case by (simp add: tally_Cons Cons.IH dom_update)
qed

lemma map_of_tally_empty:
  "map_of (tally f issues []) k =
     (if k \<in> f ` set issues then Some (occurrences f issues k) else None)"
  by (simp add: map_of_tally dict_get_def)

lemma concat_map_option:
  "concat (map (\<lambda>key. case m key of Some n \<Rightarrow> [g key n] | None \<Rightarrow> []) ks)
     = map (\<lambda>key. g key (the (m key))) (filter (\<lambda>key. m key \<noteq> None) ks)"
  by (induction ks) (auto split: option.splits)

lemma concat_map_option_if:
  "concat (map (\<lambda>key. if P key then (case m key of Some n \<Rightarrow> [g key n] | None \<Rightarrow> []) else []) ks)
     = map (\<lambda>key. g key (the (m key))) (filter (\<lambda>key. P key \<and> m key \<noteq> None) ks)"
  by (induction ks) (auto split: option.splits)

lemma sort_distinct_filter:
  assumes "distinct ks"
  shows "filter P (sort ks) = sorted_list_of_set {k \<in> set ks. P k}"
proof -
  have "filter P (sort ks) = sort (filter P ks)" by (simp add: filter_sort)
  also have "\<dots> = sort (remdups (filter P ks))" using assms by (simp add: distinct_remdups_id)
  also have "\<dots> = sorted_list_of_set (set (filter P ks))"
    by (simp only: sorted_list_of_set_sort_remdups)
  finally show ?thesis by simp
qed

lemma stat_lines_tally:
  "stat_lines (tally f issues []) order
     = map (\<lambda>v. stat_line v (occurrences f issues v)) (rendering_order order (f ` set issues))"
proof -
  let ?c = "tally f issues []"
  have d: "distinct (map fst ?c)" by (simp add: distinct_tally)
  have k: "set (map fst ?c) = f ` set issues" using keys_tally [of f issues "[]"] by simp
  have m: "map_of ?c key \<noteq> None \<longleftrightarrow> key \<in> f ` set issues" for key
    by (simp add: map_of_tally_empty)
  have v: "key \<in> f ` set issues \<Longrightarrow> the (map_of ?c key) = occurrences f issues key" for key
    by (simp add: map_of_tally_empty)
  have 1: "concat (map (\<lambda>key. case map_of ?c key of Some n \<Rightarrow> [stat_line key n] | None \<Rightarrow> []) order)
      = map (\<lambda>v. stat_line v (occurrences f issues v)) (filter (\<lambda>v. v \<in> f ` set issues) order)"
  proof -
    have "filter (\<lambda>key. map_of ?c key \<noteq> None) order = filter (\<lambda>v. v \<in> f ` set issues) order"
      by (simp only: m)
    then show ?thesis
      unfolding concat_map_option by (auto simp: v intro!: map_cong)
  qed
  have "filter (\<lambda>key. key \<notin> set order \<and> map_of ?c key \<noteq> None) (sort (map fst ?c))
      = sorted_list_of_set {k \<in> set (map fst ?c). k \<notin> set order \<and> map_of ?c k \<noteq> None}"
    by (rule sort_distinct_filter [OF d])
  also have "{k \<in> set (map fst ?c). k \<notin> set order \<and> map_of ?c k \<noteq> None}
      = f ` set issues - set order"
    unfolding k using m by auto
  finally have s: "filter (\<lambda>key. key \<notin> set order \<and> map_of ?c key \<noteq> None) (sort (map fst ?c))
      = sorted_list_of_set (f ` set issues - set order)" .
  have 2: "concat (map (\<lambda>key. if key \<notin> set order
                           then (case map_of ?c key of
                                   Some n \<Rightarrow> [stat_line key n]
                                 | None \<Rightarrow> [])
                           else []) (sort (map fst ?c)))
      = map (\<lambda>v. stat_line v (occurrences f issues v))
          (sorted_list_of_set (f ` set issues - set order))"
    unfolding concat_map_option_if s
    by (rule map_cong [OF refl]) (simp add: v)
  show ?thesis
    unfolding stat_lines_def rendering_order_def 1 2 by simp
qed

lemma status_counts_tally: "status_counts issues = tally status issues []"
  by (simp add: status_counts_def count_loop_tally)

lemma tags_counts_tally: "tags_counts issues = tally tags issues []"
  by (simp add: tags_counts_def count_loop_tally)

text \<open>
  Claim C6. The lines of each statistics table are, in this order: the canonical values
  (\<^verbatim>\<open>Fixed\<close>, \<^verbatim>\<open>Open\<close>, \<^verbatim>\<open>Invalid\<close> for the status; \<^verbatim>\<open>Verified\<close>, \<^verbatim>\<open>Not Verified\<close>,
  \<^verbatim>\<open>Not Reproduced\<close> for the tags) that some issue carries, in that fixed order, then all
  other values that some issue carries, in ascending lexicographic order; each line shows
  the value with the number of issues that carry it.
\<close>

theorem statistics_rendering_order:
  "stat_lines (status_counts issues) [''Fixed'', ''Open'', ''Invalid'']
     = map (\<lambda>v. stat_line v (occurrences status issues v))
         (rendering_order [''Fixed'', ''Open'', ''Invalid''] (status ` set issues))
   \<and> stat_lines (tags_counts issues) [''Verified'', ''Not Verified'', ''Not Reproduced'']
     = map (\<lambda>v. stat_line v (occurrences tags issues v))
         (rendering_order [''Verified'', ''Not Verified'', ''Not Reproduced''] (tags ` set issues))
   \<and> stat_status issues
     = join [NL] (stat_lines (status_counts issues) [''Fixed'', ''Open'', ''Invalid''])
   \<and> stat_tags issues
     = join [NL] (stat_lines (tags_counts issues) [''Verified'', ''Not Verified'', ''Not Reproduced''])"
  by (simp add: status_counts_tally tags_counts_tally stat_lines_tally
      stat_status_def stat_tags_def STATUS_ORDER_def TAGS_ORDER_def)

subsection \<open>Input order\<close>

lemma occurrences_mset:
  "mset issues = mset issues' \<Longrightarrow> occurrences f issues = occurrences f issues'"
proof
  fix v assume "mset issues = mset issues'"
  then have "mset (filter (\<lambda>issue. f issue = v) issues) = mset (filter (\<lambda>issue. f issue = v) issues')"
    by simp
  then have "length (filter (\<lambda>issue. f issue = v) issues) = length (filter (\<lambda>issue. f issue = v) issues')"
    by (rule mset_eq_length)
  then show "occurrences f issues v = occurrences f issues' v" by (simp add: occurrences_def)
qed

text \<open>
  Claim C5. For two lists of issues that are permutations of each other, the rendered
  sections "By Status" and "By Tags" are the same strings, line for line.
\<close>

theorem statistics_permutation_invariant:
  assumes "mset issues = mset issues'"
  shows "stat_status issues = stat_status issues' \<and> stat_tags issues = stat_tags issues'
    \<and> stat_lines (status_counts issues) STATUS_ORDER = stat_lines (status_counts issues') STATUS_ORDER
    \<and> stat_lines (tags_counts issues) TAGS_ORDER = stat_lines (tags_counts issues') TAGS_ORDER"
proof -
  have "set issues = set issues'" using assms by (rule mset_eq_setD)
  then show ?thesis
    by (simp add: stat_status_def stat_tags_def status_counts_tally tags_counts_tally
        stat_lines_tally occurrences_mset [OF assms])
qed

theorem statistics_permutation_invariant_witness:
  "mset [\<lparr>filename = ''a_bug2_x.md'', bug_number = 2, title = ''A'',
            status = ''Fixed'', tags = ''Verified''\<rparr>,
          \<lparr>filename = ''b_bug1_y.md'', bug_number = 1, title = ''B'',
            status = ''Open'', tags = ''Not Verified''\<rparr>,
          \<lparr>filename = ''c_bug1_z.md'', bug_number = 1, title = ''C'',
            status = ''Open'', tags = ''Not Verified''\<rparr>]
   = mset [\<lparr>filename = ''c_bug1_z.md'', bug_number = 1, title = ''C'',
            status = ''Open'', tags = ''Not Verified''\<rparr>,
          \<lparr>filename = ''a_bug2_x.md'', bug_number = 2, title = ''A'',
            status = ''Fixed'', tags = ''Verified''\<rparr>,
          \<lparr>filename = ''b_bug1_y.md'', bug_number = 1, title = ''B'',
            status = ''Open'', tags = ''Not Verified''\<rparr>]
   \<and> stat_status [\<lparr>filename = ''c_bug1_z.md'', bug_number = 1, title = ''C'',
            status = ''Open'', tags = ''Not Verified''\<rparr>,
          \<lparr>filename = ''a_bug2_x.md'', bug_number = 2, title = ''A'',
            status = ''Fixed'', tags = ''Verified''\<rparr>,
          \<lparr>filename = ''b_bug1_y.md'', bug_number = 1, title = ''B'',
            status = ''Open'', tags = ''Not Verified''\<rparr>]
     = ''- **Fixed**: 1'' @ [NL] @ ''- **Open**: 2''
   \<and> stat_tags [\<lparr>filename = ''c_bug1_z.md'', bug_number = 1, title = ''C'',
            status = ''Open'', tags = ''Not Verified''\<rparr>,
          \<lparr>filename = ''a_bug2_x.md'', bug_number = 2, title = ''A'',
            status = ''Fixed'', tags = ''Verified''\<rparr>,
          \<lparr>filename = ''b_bug1_y.md'', bug_number = 1, title = ''B'',
            status = ''Open'', tags = ''Not Verified''\<rparr>]
     = ''- **Verified**: 1'' @ [NL] @ ''- **Not Verified**: 2''"
proof -
  let ?a = "\<lparr>filename = ''a_bug2_x.md'', bug_number = 2, title = ''A'',
            status = ''Fixed'', tags = ''Verified''\<rparr>"
  let ?b = "\<lparr>filename = ''b_bug1_y.md'', bug_number = 1, title = ''B'',
            status = ''Open'', tags = ''Not Verified''\<rparr>"
  let ?c = "\<lparr>filename = ''c_bug1_z.md'', bug_number = 1, title = ''C'',
            status = ''Open'', tags = ''Not Verified''\<rparr>"
  have p: "mset [?a, ?b, ?c] = mset [?c, ?a, ?b]" by simp
  have s: "stat_status [?a, ?b, ?c] = ''- **Fixed**: 1'' @ [NL] @ ''- **Open**: 2''"
    by code_simp
  have t: "stat_tags [?a, ?b, ?c] = ''- **Verified**: 1'' @ [NL] @ ''- **Not Verified**: 2''"
    by code_simp
  from statistics_permutation_invariant [OF p] s t p show ?thesis by simp
qed

subsection \<open>The table\<close>

text \<open>
  Claim C7. The rows of the table "All Issues" render a rearrangement of the input list
  that is sorted ascending by \<^verbatim>\<open>bug_number\<close> and in which, for every bug number, the
  issues with that number stand in the order they have in the input.
\<close>

theorem table_row_order:
  "\<exists>ordered. rows issues = map table_row ordered
     \<and> table_body issues = join [NL] (map table_row ordered)
     \<and> mset ordered = mset issues
     \<and> sorted (map bug_number ordered)
     \<and> (\<forall>k. filter (\<lambda>issue. bug_number issue = k) ordered
             = filter (\<lambda>issue. bug_number issue = k) issues)"
  by (rule exI [of _ "sort_key bug_number issues"])
    (simp add: rows_def table_body_def sort_key_stable)

end
